theory Spec2Isabelle
  imports Main "HOL-Library.Word" "HOL-Library.Sublist" "HOL-Library.Multiset"
begin

section \<open>Data model of pkg/hostagent/dns.go\<close>

text \<open>
  Go strings are byte strings; they are modelled as \<^typ>\<open>string\<close>. A Go \<open>error\<close> value is
  its message. A slice is a list, a nil pointer is \<open>None\<close>.
\<close>

datatype error = Err string

text \<open>
  The parts of a \<open>dns.Msg\<close> of github.com/miekg/dns that the handler reads or writes:
  the header fields, the question section and the record sections. Resource records
  are never inspected here; they are kept as header and presentation data.
\<close>

record Question =
  Name :: string
  Qtype :: "16 word"
  Qclass :: "16 word"

datatype RR = RR (rr_name: string) (rr_type: "16 word") (rr_class: "16 word")
  (rr_ttl: "32 word") (rr_data: string)

record Msg =
  Id_msg :: "16 word"
  Response :: bool
  Opcode :: int
  Authoritative :: bool
  Truncated :: bool
  RecursionDesired :: bool
  RecursionAvailable :: bool
  Zero :: bool
  AuthenticatedData :: bool
  CheckingDisabled :: bool
  Rcode :: int
  Compress :: bool
  Question :: "Question list"
  Answer :: "RR list"
  Ns :: "RR list"
  Extra :: "RR list"

definition OpcodeQuery :: int where "OpcodeQuery = 0"
definition OpcodeIQuery :: int where "OpcodeIQuery = 1"
definition OpcodeStatus :: int where "OpcodeStatus = 2"
definition OpcodeNotify :: int where "OpcodeNotify = 4"
definition OpcodeUpdate :: int where "OpcodeUpdate = 5"

definition RcodeSuccess :: int where "RcodeSuccess = 0"
definition RcodeServerFailure :: int where "RcodeServerFailure = 2"
definition RcodeNameError :: int where "RcodeNameError = 3"

text \<open>\<open>dns.Client\<close>: only the field \<open>Net\<close> is set by this code (empty means UDP).\<close>

record Client =
  Net :: string

text \<open>\<open>dns.ClientConfig\<close>, one resolver group.\<close>

record ClientConfig =
  Servers :: "string list"
  Search :: "string list"
  Port :: string
  Ndots :: int
  Timeout :: int
  Attempts :: int

text \<open>
  \<open>Handler\<close>. The Go map \<open>domainClientConfigs\<close> is an association list with one entry
  per key; the order in which a \<open>range\<close> loop visits the entries is not fixed by Go and
  is supplied by the environment at each loop (see \<open>rangeMap\<close> below).
\<close>

record Handler =
  domainClientConfigs :: "(string \<times> ClientConfig list) list"
  defaultClientConfigs :: "ClientConfig list"
  clients :: "Client list"

section \<open>String helpers of the Go standard library\<close>

text \<open>
  \<open>strings.ToLower\<close> on the bytes \<open>A\<close> to \<open>Z\<close>; every other byte is kept. (Go also
  folds letters outside ASCII, which a DNS name unpacked from the wire never has.)
\<close>

definition toLowerByte :: "char \<Rightarrow> char" where
  "toLowerByte c =
     (let n = (of_char c :: nat) in if 65 \<le> n \<and> n \<le> 90 then char_of (n + 32) else c)"

definition ToLower :: "string \<Rightarrow> string" where
  "ToLower s = map toLowerByte s"

text \<open>\<open>strings.HasSuffix(s, suffix)\<close>: \<open>len(s) >= len(suffix) && s[len(s)-len(suffix):] == suffix\<close>.\<close>

definition HasSuffix :: "string \<Rightarrow> string \<Rightarrow> bool" where
  "HasSuffix s suf \<longleftrightarrow> length suf \<le> length s \<and> drop (length s - length suf) s = suf"

text \<open>
  The test of \<open>matchDomainConfig\<close> for one table entry:
  \<open>strings.HasSuffix(strings.ToLower(q.Name), strings.ToLower(domain)+".")\<close>.
\<close>

definition domainMatches :: "string \<Rightarrow> string \<Rightarrow> bool" where
  "domainMatches qname domain \<longleftrightarrow> HasSuffix (ToLower qname) (ToLower domain @ ''.'')"

section \<open>The environment of one request\<close>

text \<open>
  The network and the Go runtime are outside the program. A \<open>world\<close> fixes what they
  answer during one call of \<open>ServeDNS\<close>:
  \<^item> \<open>Exchange wd n client req addr\<close> is the result of \<open>client.Exchange(req, addr)\<close> when it
    is the exchange number \<open>n\<close> of the call (so the same address may fail first and answer
    later): \<open>Inl\<close> a transport-level error, \<open>Inr\<close> the reply message;
  \<^item> \<open>rangeMap wd n m\<close> is the order in which the \<open>range\<close> loop over the map \<open>m\<close> visits
    the entries when it runs for the routing call number \<open>n\<close>.
\<close>

record world =
  Exchange :: "nat \<Rightarrow> Client \<Rightarrow> Msg \<Rightarrow> string \<Rightarrow> error + Msg"
  rangeMap :: "nat \<Rightarrow> (string \<times> ClientConfig list) list \<Rightarrow> (string \<times> ClientConfig list) list"

text \<open>
  The state that one call threads through: \<open>wrote\<close> is the response writer, the messages
  handed to \<open>w.WriteMsg\<close>, oldest first. The other three fields are a log of the call and
  are read by no function: \<open>asked\<close> the exchanges made, each with its result, \<open>tried\<close> the
  resolver groups given to \<open>tryWithConfig\<close> with the domain scope they were stored under
  (\<open>None\<close> for the default chain), \<open>routed\<close> the questions given to \<open>matchDomainConfig\<close>.
\<close>

record run =
  wrote :: "Msg list"
  asked :: "(Client \<times> string \<times> (error + Msg)) list"
  tried :: "(string option \<times> ClientConfig) list"
  routed :: "Question list"

definition fresh :: run where
  "fresh = \<lparr>wrote = [], asked = [], tried = [], routed = []\<rparr>"

definition failed :: "Client \<times> string \<times> (error + Msg) \<Rightarrow> bool" where
  "failed a = isl (snd (snd a))"

section \<open>Forwarding: tryWithConfig\<close>

text \<open>
  The inner loop \<open>for _, srv := range clientConfig.Servers\<close> for one client. The result
  \<open>True\<close> says that the function has returned \<open>nil\<close> from inside the loop.
\<close>

fun tryServers :: "world \<Rightarrow> Client \<Rightarrow> Msg \<Rightarrow> string \<Rightarrow> string list \<Rightarrow> run \<Rightarrow> bool \<times> run" where
  "tryServers wd client req port [] st = (False, st)"
| "tryServers wd client req port (srv # srvs) st =
     (let addr = srv @ '':'' @ port in
      case Exchange wd (length (asked st)) client req addr of
        Inl err \<Rightarrow>
          tryServers wd client req port srvs (st\<lparr>asked := asked st @ [(client, addr, Inl err)]\<rparr>)
      | Inr reply \<Rightarrow>
          (True, st\<lparr>asked := asked st @ [(client, addr, Inr reply)],
                    wrote := wrote st @ [reply]\<rparr>))"

text \<open>The outer loop \<open>for _, client := range h.clients\<close>.\<close>

fun tryClients :: "world \<Rightarrow> Msg \<Rightarrow> ClientConfig \<Rightarrow> Client list \<Rightarrow> run \<Rightarrow> bool \<times> run" where
  "tryClients wd req clientConfig [] st = (False, st)"
| "tryClients wd req clientConfig (client # cs) st =
     (case tryServers wd client req (Port clientConfig) (Servers clientConfig) st of
        (True, st') \<Rightarrow> (True, st')
      | (False, st') \<Rightarrow> tryClients wd req clientConfig cs st')"

definition tryWithConfig ::
  "world \<Rightarrow> Handler \<Rightarrow> run \<Rightarrow> Msg \<Rightarrow> ClientConfig \<Rightarrow> error option \<times> run" where
  "tryWithConfig wd h st req clientConfig =
     (case tryClients wd req clientConfig (clients h) st of
        (True, st') \<Rightarrow> (None, st')
      | (False, st') \<Rightarrow> (Some (Err ''No nameservers found''), st'))"

section \<open>Routing: matchDomainConfig and ServeDNS\<close>

text \<open>
  The loop \<open>for _, clientConfig := range clientConfigs\<close> of \<open>matchDomainConfig\<close>, which
  is also the loop over \<open>h.defaultClientConfigs\<close> of \<open>ServeDNS\<close>; \<open>scope\<close> is only logged.
\<close>

fun tryConfigs ::
  "world \<Rightarrow> Handler \<Rightarrow> Msg \<Rightarrow> string option \<Rightarrow> ClientConfig list \<Rightarrow> run \<Rightarrow> bool \<times> run" where
  "tryConfigs wd h req scope [] st = (False, st)"
| "tryConfigs wd h req scope (clientConfig # ccs) st =
     (case tryWithConfig wd h (st\<lparr>tried := tried st @ [(scope, clientConfig)]\<rparr>) req clientConfig of
        (None, st') \<Rightarrow> (True, st')
      | (Some err, st') \<Rightarrow> tryConfigs wd h req scope ccs st')"

text \<open>The loop \<open>for domain, clientConfigs := range h.domainClientConfigs\<close>.\<close>

fun matchDomains ::
  "world \<Rightarrow> Handler \<Rightarrow> Msg \<Rightarrow> Question \<Rightarrow> (string \<times> ClientConfig list) list \<Rightarrow> run \<Rightarrow> bool \<times> run" where
  "matchDomains wd h req q [] st = (False, st)"
| "matchDomains wd h req q ((domain, clientConfigs) # rest) st =
     (if domainMatches (Name q) domain then
        (case tryConfigs wd h req (Some domain) clientConfigs st of
           (True, st') \<Rightarrow> (True, st')
         | (False, st') \<Rightarrow> matchDomains wd h req q rest st')
      else matchDomains wd h req q rest st)"

definition matchDomainConfig ::
  "world \<Rightarrow> Handler \<Rightarrow> run \<Rightarrow> Msg \<Rightarrow> Question \<Rightarrow> error option \<times> run" where
  "matchDomainConfig wd h st req q =
     (case matchDomains wd h req q (rangeMap wd (length (routed st)) (domainClientConfigs h))
             (st\<lparr>routed := routed st @ [q]\<rparr>) of
        (True, st') \<Rightarrow> (None, st')
      | (False, st') \<Rightarrow> (Some (Err ''No working match found''), st'))"

text \<open>The loop \<open>for _, q := range req.Question\<close> of \<open>ServeDNS\<close>.\<close>

fun matchQuestions :: "world \<Rightarrow> Handler \<Rightarrow> Msg \<Rightarrow> Question list \<Rightarrow> run \<Rightarrow> bool \<times> run" where
  "matchQuestions wd h req [] st = (False, st)"
| "matchQuestions wd h req (q # qs) st =
     (case matchDomainConfig wd h st req q of
        (None, st') \<Rightarrow> (True, st')
      | (Some err, st') \<Rightarrow> matchQuestions wd h req qs st')"

text \<open>The message built at the end of \<open>ServeDNS\<close>.\<close>

definition failureReply :: "Msg \<Rightarrow> Msg" where
  "failureReply req =
     \<lparr>Id_msg = Id_msg req, Response = True, Opcode = Opcode req, Authoritative = False,
      Truncated = False, RecursionDesired = False, RecursionAvailable = False, Zero = False,
      AuthenticatedData = False, CheckingDisabled = False, Rcode = RcodeServerFailure,
      Compress = False, Question = [], Answer = [], Ns = [], Extra = []\<rparr>"

definition ServeDNS :: "world \<Rightarrow> Handler \<Rightarrow> run \<Rightarrow> Msg \<Rightarrow> run" where
  "ServeDNS wd h st req =
     (case (if Opcode req = OpcodeQuery \<or> Opcode req = OpcodeIQuery
            then matchQuestions wd h req (Question req) st else (False, st)) of
        (True, st1) \<Rightarrow> st1
      | (False, st1) \<Rightarrow>
          (case tryConfigs wd h req None (defaultClientConfigs h) st1 of
             (True, st2) \<Rightarrow> st2
           | (False, st2) \<Rightarrow> st2\<lparr>wrote := wrote st2 @ [failureReply req]\<rparr>))"

section \<open>Configuration discovery: newHandler\<close>

text \<open>
  Modelled from the spec: the package github.com/johnstarich/go/dns/scutil is not part of
  the sources. A \<open>scutil.Resolver\<close> is one entry of the platform's split-DNS facility, with
  the fields and the method \<open>newHandler\<close> reads: the domain scope (empty when the entry has
  none), the nameserver addresses, the ordering hint, and the reachability indicator that
  \<open>Reachable()\<close> returns.
\<close>

record Resolver =
  Domain_r :: string
  Nameservers :: "string list"
  Order :: int
  Reachable :: bool

text \<open>
  What the calls that leave the program return during one run of \<open>newHandler\<close>:
  \<^item> \<open>ReadMacOSDNS\<close>: the result of \<open>scutil.ReadMacOSDNS\<close>, an error or the \<open>Resolvers\<close> of
    the configuration it read;
  \<^item> \<open>ClientConfigFromFile\<close>: the result of \<open>dns.ClientConfigFromFile\<close> on a path;
  \<^item> \<open>ClientConfigFromReader\<close>: the result of \<open>dns.ClientConfigFromReader\<close> on a reader
    over the given text.
\<close>

record env =
  ReadMacOSDNS :: "error + Resolver list"
  ClientConfigFromFile :: "string \<Rightarrow> error + ClientConfig"
  ClientConfigFromReader :: "string \<Rightarrow> error + ClientConfig"

text \<open>\<open>fmt.Sprintf("nameserver %s\n", ip)\<close>, appended for each address in turn.\<close>

definition newStaticClientConfig :: "env \<Rightarrow> string list \<Rightarrow> error + ClientConfig" where
  "newStaticClientConfig e ips =
     ClientConfigFromReader e (foldl (\<lambda>s ip. s @ ''nameserver '' @ ip @ [CHR 0x0A]) [] ips)"

text \<open>The comparison handed to \<open>sort.Slice\<close>, on the two entries at the indices \<open>i\<close>, \<open>j\<close>.\<close>

definition lessResolver :: "Resolver \<Rightarrow> Resolver \<Rightarrow> bool" where
  "lessResolver ri rj \<longleftrightarrow> (Domain_r ri \<noteq> [] \<and> Domain_r rj = []) \<or> Order ri < Order rj"

text \<open>
  Modelled from the spec: \<open>sort.Slice\<close> belongs to Go's standard library, which is not part
  of the sources. On a slice of at most 12 elements it runs an insertion sort:
  \<^verbatim>\<open>for i := a + 1; i < b; i++ {
    for j := i; j > a && less(j, j-1); j-- { swap(j, j-1) } }\<close>
  \<open>sink lessf x left\<close> is the inner loop for the element \<open>x = data[i]\<close>, where \<open>left\<close> holds
  \<open>data[0..i)\<close> from right to left, as the loop walks it. \<open>Slice\<close> is the outer loop.
  (Before Go 1.19 one pass of swaps at distance 6 precedes the insertion sort on slices of
  7 to 12 elements; longer slices are sorted by quicksort and heapsort variants that are
  not modelled.)
\<close>

fun sink :: "('a \<Rightarrow> 'a \<Rightarrow> bool) \<Rightarrow> 'a \<Rightarrow> 'a list \<Rightarrow> 'a list" where
  "sink lessf x [] = [x]"
| "sink lessf x (y # left) = (if lessf x y then y # sink lessf x left else x # y # left)"

definition Slice :: "('a \<Rightarrow> 'a \<Rightarrow> bool) \<Rightarrow> 'a list \<Rightarrow> 'a list" where
  "Slice lessf data = rev (foldl (\<lambda>left x. sink lessf x left) [] data)"

text \<open>
  \<open>h.domainClientConfigs[k] = append(h.domainClientConfigs[k], cc)\<close>, after the entry was
  created empty when it was missing.
\<close>

definition appendAt ::
  "(string \<times> ClientConfig list) list \<Rightarrow> string \<Rightarrow> ClientConfig \<Rightarrow> (string \<times> ClientConfig list) list" where
  "appendAt m k cc =
     (let m1 = (if map_of m k = None then m @ [(k, [])] else m)
      in map (\<lambda>(k', ccs). if k' = k then (k', ccs @ [cc]) else (k', ccs)) m1)"

text \<open>The handler that \<open>newHandler\<close> starts from: two clients, UDP then TCP.\<close>

definition emptyHandler :: Handler where
  "emptyHandler =
     \<lparr>domainClientConfigs = [], defaultClientConfigs = [],
      clients = [\<lparr>Net = []\<rparr>, \<lparr>Net = ''tcp''\<rparr>]\<rparr>"

text \<open>The loop \<open>for _, r := range resolvers\<close> over the sorted entries.\<close>

fun addResolvers :: "env \<Rightarrow> Resolver list \<Rightarrow> Handler \<Rightarrow> error + Handler" where
  "addResolvers e [] h = Inr h"
| "addResolvers e (r # rs) h =
     (case newStaticClientConfig e (Nameservers r) of
        Inl err \<Rightarrow> Inl err
      | Inr cc \<Rightarrow>
          if Domain_r r = []
          then addResolvers e rs (h\<lparr>defaultClientConfigs := defaultClientConfigs h @ [cc]\<rparr>)
          else addResolvers e rs
                 (h\<lparr>domainClientConfigs := appendAt (domainClientConfigs h) (Domain_r r) cc\<rparr>))"

definition newHandler :: "env \<Rightarrow> error + Handler" where
  "newHandler e =
     (case ReadMacOSDNS e of
        Inl err \<Rightarrow>
          (case ClientConfigFromFile e ''/etc/resolv.conf'' of
             Inl err \<Rightarrow>
               (case newStaticClientConfig e [''8.8.8.8'', ''1.1.1.1''] of
                  Inl err \<Rightarrow> Inl err
                | Inr cc \<Rightarrow> Inr (emptyHandler\<lparr>defaultClientConfigs := [cc]\<rparr>))
           | Inr cc \<Rightarrow> Inr (emptyHandler\<lparr>defaultClientConfigs := [cc]\<rparr>))
      | Inr scResolvers \<Rightarrow>
          addResolvers e (Slice lessResolver (filter Reachable scResolvers)) emptyHandler)"

text \<open>
  Modelled from the spec: \<open>dns.ClientConfigFromReader\<close> belongs to the package
  github.com/miekg/dns, which is not part of the sources. This is what it returns for a
  text made of \<open>nameserver\<close> lines, as \<open>newStaticClientConfig\<close> builds it: the text is read
  line by line, a line is split at white space, and a line whose first field is
  \<open>nameserver\<close> and that has a second field adds that field to \<open>Servers\<close>; the other fields
  of the configuration keep the package's defaults (port 53).
\<close>

definition isSpace :: "char \<Rightarrow> bool" where
  "isSpace c \<longleftrightarrow> c = CHR '' '' \<or> c = CHR 0x09 \<or> c = CHR 0x0A \<or> c = CHR 0x0B \<or> c = CHR 0x0C \<or> c = CHR 0x0D"

fun fieldsFrom :: "string \<Rightarrow> string \<Rightarrow> string list" where
  "fieldsFrom cur [] = (if cur = [] then [] else [cur])"
| "fieldsFrom cur (c # cs) =
     (if isSpace c then (if cur = [] then fieldsFrom [] cs else cur # fieldsFrom [] cs)
      else fieldsFrom (cur @ [c]) cs)"

fun linesFrom :: "string \<Rightarrow> string \<Rightarrow> string list" where
  "linesFrom cur [] = (if cur = [] then [] else [cur])"
| "linesFrom cur (c # cs) =
     (if c = CHR 0x0A then cur # linesFrom [] cs else linesFrom (cur @ [c]) cs)"

definition nameserverOf :: "string \<Rightarrow> string list" where
  "nameserverOf line =
     (case fieldsFrom [] line of
        f0 # f1 # _ \<Rightarrow> if f0 = ''nameserver'' then [f1] else []
      | _ \<Rightarrow> [])"

definition nameserverLines :: "string \<Rightarrow> error + ClientConfig" where
  "nameserverLines conf =
     Inr \<lparr>Servers = concat (map nameserverOf (linesFrom [] conf)), Search = [], Port = ''53'',
          Ndots = 1, Timeout = 5, Attempts = 2\<rparr>"

section \<open>Starting and stopping: StartDNS and Shutdown\<close>

text \<open>
  The fields of \<open>HostAgent\<close> that \<open>StartDNS\<close> reads. The outcome of a call is a return or a
  panic.
\<close>

record HostAgent =
  udpDNSLocalPort :: int
  tcpDNSLocalPort :: int

datatype 'a outcome = Returned 'a | Panicked error

text \<open>
  A \<open>dns.Server\<close> of github.com/miekg/dns: the fields \<open>StartDNS\<close> sets, and whether it is
  serving (the package's own flag, set by \<open>ListenAndServe\<close>, cleared by \<open>Shutdown\<close>).
\<close>

record dns_Server =
  Net_s :: string
  Addr :: string
  Handler_s :: Handler
  started :: bool

record Server =
  udp :: "dns_Server option"
  tcp :: "dns_Server option"

text \<open>\<open>%d\<close> of \<open>fmt.Sprintf\<close>: an integer in decimal.\<close>

definition digit :: "nat \<Rightarrow> char" where
  "digit d = ''0123456789'' ! d"

function decimal :: "nat \<Rightarrow> string" where
  "decimal n = (if n < 10 then [digit n] else decimal (n div 10) @ [digit (n mod 10)])"
  by pat_completeness auto
termination
  by (relation "measure id") auto

declare decimal.simps [simp del]

definition Sprintf_d :: "int \<Rightarrow> string" where
  "Sprintf_d i = (if i < 0 then ''-'' @ decimal (nat (- i)) else decimal (nat i))"

text \<open>
  \<open>StartDNS\<close>. The two goroutines are not modelled as concurrent tasks: the handle is given
  as it is once every goroutine that was started has stored its server in the handle and
  is serving. A listener that cannot bind panics inside its goroutine, after the call; that
  is not an outcome of the call and is outside this model.
  The result is the pair that the Go function returns: the handle and the error.
\<close>

definition listener :: "string \<Rightarrow> int \<Rightarrow> Handler \<Rightarrow> dns_Server" where
  "listener net port h =
     \<lparr>Net_s = net, Addr = ''127.0.0.1:'' @ Sprintf_d port, Handler_s = h, started = True\<rparr>"

definition StartDNS :: "env \<Rightarrow> HostAgent \<Rightarrow> (Server option \<times> error option) outcome" where
  "StartDNS e a =
     (case newHandler e of
        Inl err \<Rightarrow> Panicked err
      | Inr h \<Rightarrow>
          Returned
            (Some \<lparr>udp = (if udpDNSLocalPort a > 0
                          then Some (listener ''udp'' (udpDNSLocalPort a) h) else None),
                   tcp = (if tcpDNSLocalPort a > 0
                          then Some (listener ''tcp'' (tcpDNSLocalPort a) h) else None)\<rparr>,
             None))"

text \<open>
  Modelled from the spec: \<open>(*dns.Server).Shutdown\<close> of github.com/miekg/dns, which is not
  part of the sources. It stops a serving listener, and returns an error and changes
  nothing when the server is not serving.
\<close>

definition dns_Server_Shutdown :: "dns_Server \<Rightarrow> error option \<times> dns_Server" where
  "dns_Server_Shutdown s =
     (if started s then (None, s\<lparr>started := False\<rparr>)
      else (Some (Err ''dns: server not started''), s))"

text \<open>\<open>Shutdown\<close>: the result of each inner call is discarded (\<open>_ = s.udp.Shutdown()\<close>).\<close>

definition Shutdown :: "Server \<Rightarrow> Server" where
  "Shutdown s =
     (let s1 = (case udp s of
                  None \<Rightarrow> s
                | Some u \<Rightarrow> s\<lparr>udp := Some (snd (dns_Server_Shutdown u))\<rparr>)
      in case tcp s1 of
           None \<Rightarrow> s1
         | Some t \<Rightarrow> s1\<lparr>tcp := Some (snd (dns_Server_Shutdown t))\<rparr>)"

section \<open>Vocabulary of the statements\<close>

text \<open>
  What a loop that ends with \<open>r = (returned, st')\<close> has done since the state \<open>st\<close>: it has
  made the exchanges \<open>new\<close>, all failed but possibly the last; if it returned, the last
  one succeeded and its reply is the one message written; if not, nothing was written.
\<close>

definition effect :: "run \<Rightarrow> bool \<times> run \<Rightarrow> bool" where
  "effect st r \<longleftrightarrow>
     (\<exists>new. asked (snd r) = asked st @ new \<and> list_all failed (butlast new) \<and>
        (if fst r
         then \<exists>reply. new \<noteq> [] \<and> snd (snd (last new)) = Inr reply \<and> wrote (snd r) = wrote st @ [reply]
         else list_all failed new \<and> wrote (snd r) = wrote st))"

text \<open>The two forwarding steps of \<open>ServeDNS\<close>, before the failure reply.\<close>

definition domainPhase :: "world \<Rightarrow> Handler \<Rightarrow> run \<Rightarrow> Msg \<Rightarrow> bool \<times> run" where
  "domainPhase wd h st req =
     (if Opcode req = OpcodeQuery \<or> Opcode req = OpcodeIQuery
      then matchQuestions wd h req (Question req) st else (False, st))"

definition forwarded :: "world \<Rightarrow> Handler \<Rightarrow> run \<Rightarrow> Msg \<Rightarrow> bool \<times> run" where
  "forwarded wd h st req =
     (case domainPhase wd h st req of
        (True, st1) \<Rightarrow> (True, st1)
      | (False, st1) \<Rightarrow> tryConfigs wd h req None (defaultClientConfigs h) st1)"

text \<open>
  \<open>candidates cs cc\<close>: the pairs of client and address in the order of the two nested loops
  of \<open>tryWithConfig\<close>. \<open>answers wd req n cands\<close>: what each candidate would be answered if
  all of them were asked in turn, the first one as exchange number \<open>n\<close>.
\<close>

definition candidates :: "Client list \<Rightarrow> ClientConfig \<Rightarrow> (Client \<times> string) list" where
  "candidates cs cc =
     concat (map (\<lambda>client. map (\<lambda>srv. (client, srv @ '':'' @ Port cc)) (Servers cc)) cs)"

fun answers ::
  "world \<Rightarrow> Msg \<Rightarrow> nat \<Rightarrow> (Client \<times> string) list \<Rightarrow> (Client \<times> string \<times> (error + Msg)) list" where
  "answers wd req n [] = []"
| "answers wd req n ((client, addr) # rest) =
     (client, addr, Exchange wd n client req addr) # answers wd req (Suc n) rest"

text \<open>The answers up to and including the first success, and the reply of that success.\<close>

definition upToFirstSuccess ::
  "(Client \<times> string \<times> (error + Msg)) list \<Rightarrow> (Client \<times> string \<times> (error + Msg)) list" where
  "upToFirstSuccess as = takeWhile failed as @ take 1 (dropWhile failed as)"

definition relayed :: "(Client \<times> string \<times> (error + Msg)) list \<Rightarrow> Msg list" where
  "relayed as = map (\<lambda>a. projr (snd (snd a))) (take 1 (dropWhile failed as))"

text \<open>The scoped groups that a question matches, as log entries.\<close>

definition matching ::
  "(string \<times> ClientConfig list) list \<Rightarrow> Question \<Rightarrow> (string option \<times> ClientConfig) set" where
  "matching ents q =
     {(Some d, cc) | d ccs cc. (d, ccs) \<in> set ents \<and> domainMatches (Name q) d \<and> cc \<in> set ccs}"

definition scopedGroups :: "Handler \<Rightarrow> Question \<Rightarrow> (string option \<times> ClientConfig) set" where
  "scopedGroups h q = matching (domainClientConfigs h) q"

text \<open>
  \<open>before a b\<close>: what the insertion sort with \<open>lessResolver\<close> does establish between an
  entry \<open>a\<close> and a later entry \<open>b\<close> of its result: inside a class the hints ascend, and an
  unscoped entry stands before a scoped one only when its hint is smaller.
\<close>

definition before :: "Resolver \<Rightarrow> Resolver \<Rightarrow> bool" where
  "before a b \<longleftrightarrow>
     (if (Domain_r a = []) = (Domain_r b = []) then Order a \<le> Order b
      else Domain_r a \<noteq> [] \<or> Order a < Order b)"

section \<open>Example inputs\<close>

text \<open>
  A handler with one scoped group for \<open>internal.corp\<close> and a default chain of one group,
  a query for \<open>db.internal.corp.\<close> and the same message as a server status request, and
  two networks: one where every exchange times out, and one where only the second scoped
  server answers (with a name error).
\<close>

definition internalGroup :: ClientConfig where
  "internalGroup =
     \<lparr>Servers = [''10.0.0.53'', ''10.0.0.54''], Search = [], Port = ''53'', Ndots = 1,
      Timeout = 5, Attempts = 2\<rparr>"

definition publicGroup :: ClientConfig where
  "publicGroup =
     \<lparr>Servers = [''8.8.8.8''], Search = [], Port = ''53'', Ndots = 1, Timeout = 5,
      Attempts = 2\<rparr>"

definition exampleHandler :: Handler where
  "exampleHandler =
     \<lparr>domainClientConfigs = [(''internal.corp'', [internalGroup])],
      defaultClientConfigs = [publicGroup],
      clients = [\<lparr>Net = []\<rparr>, \<lparr>Net = ''tcp''\<rparr>]\<rparr>"

definition exampleRequest :: Msg where
  "exampleRequest =
     \<lparr>Id_msg = 0x1234, Response = False, Opcode = OpcodeQuery, Authoritative = False,
      Truncated = False, RecursionDesired = True, RecursionAvailable = False, Zero = False,
      AuthenticatedData = False, CheckingDisabled = False, Rcode = RcodeSuccess,
      Compress = False,
      Question = [\<lparr>Name = ''db.internal.corp.'', Qtype = 1, Qclass = 1\<rparr>],
      Answer = [], Ns = [], Extra = []\<rparr>"

definition nameError :: "Msg \<Rightarrow> Msg" where
  "nameError req = req\<lparr>Response := True, RecursionAvailable := True, Rcode := RcodeNameError\<rparr>"

definition worldDown :: world where
  "worldDown = \<lparr>Exchange = (\<lambda>n client req addr. Inl (Err ''i/o timeout'')),
                rangeMap = (\<lambda>n m. m)\<rparr>"

definition worldSecond :: world where
  "worldSecond =
     \<lparr>Exchange = (\<lambda>n client req addr.
         if addr = ''10.0.0.54:53'' then Inr (nameError req) else Inl (Err ''i/o timeout'')),
      rangeMap = (\<lambda>n m. m)\<rparr>"

text \<open>A handler whose only table entry is the scope \<open>example.com\<close>.\<close>

definition exampleComHandler :: Handler where
  "exampleComHandler =
     \<lparr>domainClientConfigs = [(''example.com'', [internalGroup])],
      defaultClientConfigs = [publicGroup],
      clients = [\<lparr>Net = []\<rparr>, \<lparr>Net = ''tcp''\<rparr>]\<rparr>"

definition statusRequest :: Msg where
  "statusRequest = exampleRequest\<lparr>Opcode := OpcodeStatus\<rparr>"

text \<open>
  An environment without split-DNS facility and without resolver file, whose parser of
  static configurations is the one modelled above; the handler it leads to; a network
  where only \<open>1.1.1.1\<close> answers, with a name error.
\<close>

definition envFallback :: env where
  "envFallback =
     \<lparr>ReadMacOSDNS = Inl (Err ''scutil: not available''),
      ClientConfigFromFile = (\<lambda>path. Inl (Err ''open /etc/resolv.conf: no such file'')),
      ClientConfigFromReader = nameserverLines\<rparr>"

definition fallbackGroup :: ClientConfig where
  "fallbackGroup =
     \<lparr>Servers = [''8.8.8.8'', ''1.1.1.1''], Search = [], Port = ''53'', Ndots = 1,
      Timeout = 5, Attempts = 2\<rparr>"

definition fallbackHandler :: Handler where
  "fallbackHandler =
     \<lparr>domainClientConfigs = [], defaultClientConfigs = [fallbackGroup],
      clients = [\<lparr>Net = []\<rparr>, \<lparr>Net = ''tcp''\<rparr>]\<rparr>"

definition worldCloudflare :: world where
  "worldCloudflare =
     \<lparr>Exchange = (\<lambda>n client req addr.
         if addr = ''1.1.1.1:53'' then Inr (nameError req) else Inl (Err ''i/o timeout'')),
      rangeMap = (\<lambda>n m. m)\<rparr>"

text \<open>An agent with the UDP port set and the TCP port left at zero.\<close>

definition udpOnly :: HostAgent where
  "udpOnly = \<lparr>udpDNSLocalPort = 5353, tcpDNSLocalPort = 0\<rparr>"




section \<open>Verification of the domain-suffix match\<close>

lemma HasSuffix_iff_suffix: "HasSuffix s suf \<longleftrightarrow> suffix suf s"
proof
  assume "HasSuffix s suf"
  then have "s = take (length s - length suf) s @ suf"
    by (metis HasSuffix_def append_take_drop_id)
  then show "suffix suf s"
    by (metis suffixI)
next
  assume "suffix suf s"
  then obtain zs where "s = zs @ suf"
    by (auto simp: suffix_def)
  then show "HasSuffix s suf"
    by (simp add: HasSuffix_def)
qed

lemma toLowerByte_idem: "toLowerByte (toLowerByte c) = toLowerByte c"
  by (auto simp: toLowerByte_def Let_def)

lemma ToLower_idem: "ToLower (ToLower s) = ToLower s"
  by (simp add: ToLower_def toLowerByte_idem)

text \<open>What the code's test is: a plain suffix test on the folded strings.\<close>

lemma domainMatches_iff:
  "domainMatches qname domain \<longleftrightarrow> (\<exists>pre. ToLower qname = pre @ ToLower domain @ ''.'')"
  by (auto simp: domainMatches_def HasSuffix_iff_suffix suffix_def)

lemma domainMatches_case_insensitive:
  "domainMatches (ToLower qname) (ToLower domain) = domainMatches qname domain"
  by (simp add: domainMatches_def ToLower_idem)

text \<open>
  C1. The claim: the match is case-insensitive and holds only on a label boundary, so
  that the name \<open>fooexample.com\<close> does not match the scope \<open>example.com\<close>. The code
  tests a plain suffix after appending the root dot to the scope; the fully qualified
  name \<open>fooexample.com.\<close>, as a question carries it, is matched by the scope
  \<open>example.com\<close>, although \<open>example.com\<close> is not preceded by a dot in it, and
  \<open>matchDomainConfig\<close> forwards the question to the group stored under that scope.
\<close>

theorem matchDomainConfig_crosses_label_boundary:
  "domainMatches ''fooexample.com.'' ''example.com''
   \<and> ToLower ''fooexample.com.'' \<noteq> ToLower ''example.com'' @ ''.''
   \<and> \<not> HasSuffix (ToLower ''fooexample.com.'') (''.'' @ ToLower ''example.com'' @ ''.'')
   \<and> domainMatches ''foo.example.com.'' ''example.com''
   \<and> domainMatches ''FOO.Example.COM.'' ''eXample.com''
   \<and> \<not> domainMatches ''foo.example.com'' ''example.com''
   \<and> tried (snd (matchDomainConfig worldDown exampleComHandler fresh exampleRequest
          \<lparr>Name = ''fooexample.com.'', Qtype = 1, Qclass = 1\<rparr>)) =
       [(Some ''example.com'', internalGroup)]"
  by code_simp

section \<open>What one call has done when it ends\<close>

lemma effect_skip: "effect st (False, st)"
  by (simp add: effect_def)

lemma effect_log [simp]:
  "effect (st\<lparr>tried := x\<rparr>) r = effect st r"
  "effect (st\<lparr>routed := y\<rparr>) r = effect st r"
  by (simp_all add: effect_def)

lemma list_all_butlast: "list_all P xs \<Longrightarrow> list_all P (butlast xs)"
  by (induction xs) auto

lemma effect_seq:
  assumes a: "effect st (False, st1)" and b: "effect st1 r"
  shows "effect st r"
proof -
  from a obtain n1 where n1: "asked st1 = asked st @ n1" "list_all failed n1" "wrote st1 = wrote st"
    by (auto simp: effect_def)
  from b obtain n2 where n2: "asked (snd r) = asked st1 @ n2" "list_all failed (butlast n2)"
    "if fst r
         then \<exists>reply. n2 \<noteq> [] \<and> snd (snd (last n2)) = Inr reply \<and> wrote (snd r) = wrote st1 @ [reply]
         else list_all failed n2 \<and> wrote (snd r) = wrote st1"
    unfolding effect_def by blast
  have bl: "list_all failed (butlast (n1 @ n2))"
    using n1(2) n2(2) by (cases "n2 = []") (simp_all add: butlast_append list_all_butlast)
  show ?thesis
    unfolding effect_def
    apply (rule exI[of _ "n1 @ n2"])
    using n1 n2 bl by (auto split: if_splits)
qed

lemma tryServers_effect: "effect st (tryServers wd client req port srvs st)"
proof (induction srvs arbitrary: st)
  case Nil
  show ?case by (simp add: effect_skip)
next
  case (Cons srv srvs)
  let ?addr = "srv @ '':'' @ port"
  show ?case
  proof (cases "Exchange wd (length (asked st)) client req ?addr")
    case (Inl err)
    let ?st1 = "st\<lparr>asked := asked st @ [(client, ?addr, Inl err)]\<rparr>"
    have "effect st (False, ?st1)"
      by (simp add: effect_def failed_def)
    from effect_seq[OF this Cons.IH[of ?st1]] Inl show ?thesis
      by (simp add: Let_def)
  next
    case (Inr reply)
    then show ?thesis
      unfolding effect_def
      by (auto simp: Let_def intro!: exI[of _ "[(client, ?addr, Inr reply)]"])
  qed
qed

lemma tryClients_effect: "effect st (tryClients wd req cc cs st)"
proof (induction cs arbitrary: st)
  case Nil
  show ?case by (simp add: effect_skip)
next
  case (Cons c cs)
  obtain b st1 where r: "tryServers wd c req (Port cc) (Servers cc) st = (b, st1)"
    by (cases "tryServers wd c req (Port cc) (Servers cc) st")
  have e: "effect st (b, st1)"
    using tryServers_effect[of st wd c req "Port cc" "Servers cc"] r by simp
  show ?case
  proof (cases b)
    case True
    with e r show ?thesis by simp
  next
    case False
    with e r effect_seq[OF _ Cons.IH[of st1]] show ?thesis by simp
  qed
qed

lemma tryWithConfig_effect:
  "effect st (fst (tryWithConfig wd h st req cc) = None, snd (tryWithConfig wd h st req cc))"
proof -
  obtain b st1 where r: "tryClients wd req cc (clients h) st = (b, st1)"
    by (cases "tryClients wd req cc (clients h) st")
  with tryClients_effect[of st wd req cc "clients h"] show ?thesis
    by (cases b) (simp_all add: tryWithConfig_def)
qed

lemma tryConfigs_effect: "effect st (tryConfigs wd h req scope ccs st)"
proof (induction ccs arbitrary: st)
  case Nil
  show ?case by (simp add: effect_skip)
next
  case (Cons cc ccs)
  let ?st0 = "st\<lparr>tried := tried st @ [(scope, cc)]\<rparr>"
  obtain res st1 where r: "tryWithConfig wd h ?st0 req cc = (res, st1)"
    by (cases "tryWithConfig wd h ?st0 req cc")
  have e: "effect st (res = None, st1)"
    using tryWithConfig_effect[of ?st0 wd h req cc] r by simp
  show ?case
  proof (cases res)
    case None
    with e r show ?thesis by simp
  next
    case (Some err)
    with e r effect_seq[OF _ Cons.IH[of st1]] show ?thesis by simp
  qed
qed

lemma matchDomains_effect: "effect st (matchDomains wd h req q ents st)"
proof (induction ents arbitrary: st)
  case Nil
  show ?case by (simp add: effect_skip)
next
  case (Cons ent ents)
  obtain domain ccs where ent: "ent = (domain, ccs)"
    by (cases ent)
  obtain b st1 where r: "tryConfigs wd h req (Some domain) ccs st = (b, st1)"
    by (cases "tryConfigs wd h req (Some domain) ccs st")
  have e: "effect st (b, st1)"
    using tryConfigs_effect[of st wd h req "Some domain" ccs] r by simp
  show ?case
  proof (cases "domainMatches (Name q) domain")
    case False
    with ent Cons.IH[of st] show ?thesis by simp
  next
    case m: True
    show ?thesis
    proof (cases b)
      case True
      with e r ent m show ?thesis by simp
    next
      case False
      with e r ent m effect_seq[OF _ Cons.IH[of st1]] show ?thesis by simp
    qed
  qed
qed

lemma matchDomainConfig_effect:
  "effect st (fst (matchDomainConfig wd h st req q) = None, snd (matchDomainConfig wd h st req q))"
proof -
  let ?st0 = "st\<lparr>routed := routed st @ [q]\<rparr>"
  let ?ents = "rangeMap wd (length (routed st)) (domainClientConfigs h)"
  obtain b st1 where r: "matchDomains wd h req q ?ents ?st0 = (b, st1)"
    by (cases "matchDomains wd h req q ?ents ?st0")
  with matchDomains_effect[of ?st0 wd h req q ?ents] show ?thesis
    by (cases b) (simp_all add: matchDomainConfig_def)
qed

lemma matchQuestions_effect: "effect st (matchQuestions wd h req qs st)"
proof (induction qs arbitrary: st)
  case Nil
  show ?case by (simp add: effect_skip)
next
  case (Cons q qs)
  obtain res st1 where r: "matchDomainConfig wd h st req q = (res, st1)"
    by (cases "matchDomainConfig wd h st req q")
  have e: "effect st (res = None, st1)"
    using matchDomainConfig_effect[of st wd h req q] r by simp
  show ?case
  proof (cases res)
    case None
    with e r show ?thesis by simp
  next
    case (Some err)
    with e r effect_seq[OF _ Cons.IH[of st1]] show ?thesis by simp
  qed
qed

lemma domainPhase_effect: "effect st (domainPhase wd h st req)"
  by (simp add: domainPhase_def matchQuestions_effect effect_skip)

lemma forwarded_effect: "effect st (forwarded wd h st req)"
proof -
  obtain b st1 where r: "domainPhase wd h st req = (b, st1)"
    by (cases "domainPhase wd h st req")
  with domainPhase_effect[of st wd h req] have e: "effect st (b, st1)" by simp
  show ?thesis
  proof (cases b)
    case True
    with e r show ?thesis by (simp add: forwarded_def)
  next
    case False
    with e r effect_seq[OF _ tryConfigs_effect[of st1]] show ?thesis
      by (simp add: forwarded_def)
  qed
qed

lemma ServeDNS_forwarded:
  "ServeDNS wd h st req =
     (case forwarded wd h st req of
        (True, st2) \<Rightarrow> st2
      | (False, st2) \<Rightarrow> st2\<lparr>wrote := wrote st2 @ [failureReply req]\<rparr>)"
  by (simp add: ServeDNS_def forwarded_def domainPhase_def split: prod.splits bool.splits)

lemma effect_True:
  "effect st (True, st') \<Longrightarrow>
     \<exists>new reply. asked st' = asked st @ new \<and> list_all failed (butlast new) \<and> new \<noteq> []
        \<and> snd (snd (last new)) = Inr reply \<and> wrote st' = wrote st @ [reply]"
  by (auto simp: effect_def)

lemma effect_False:
  "effect st (False, st') \<Longrightarrow>
     \<exists>new. asked st' = asked st @ new \<and> list_all failed new \<and> wrote st' = wrote st"
  by (auto simp: effect_def)

lemma ServeDNS_outcome:
  "\<exists>new m. asked (ServeDNS wd h st req) = asked st @ new
      \<and> wrote (ServeDNS wd h st req) = wrote st @ [m]
      \<and> list_all failed (butlast new)
      \<and> (if list_all failed new then m = failureReply req
          else snd (snd (last new)) = Inr m)"
proof -
  obtain b st2 where r: "forwarded wd h st req = (b, st2)"
    by (cases "forwarded wd h st req")
  with forwarded_effect[of st wd h req] have e: "effect st (b, st2)" by simp
  show ?thesis
  proof (cases b)
    case True
    with e have "effect st (True, st2)" by simp
    from effect_True[OF this] obtain new reply where new: "asked st2 = asked st @ new"
      "list_all failed (butlast new)" "new \<noteq> []"
      "snd (snd (last new)) = Inr reply" "wrote st2 = wrote st @ [reply]"
      by blast
    have "\<not> failed (last new)" using new(4) by (simp add: failed_def)
    with new(3) have "\<not> list_all failed new"
      by (metis last_in_set list_all_iff)
    with True r new show ?thesis
      by (simp add: ServeDNS_forwarded)
  next
    case False
    with e have "effect st (False, st2)" by simp
    from effect_False[OF this] obtain new where new: "asked st2 = asked st @ new"
      "list_all failed new" "wrote st2 = wrote st"
      by blast
    with False r list_all_butlast[OF new(2)] show ?thesis
      by (simp add: ServeDNS_forwarded)
  qed
qed

section \<open>The reply of one call\<close>

text \<open>
  C10. One call of \<open>ServeDNS\<close> hands exactly one message to the response writer. It is
  the reply of the first exchange that succeeded, which is then the last exchange of the
  call, or, when every exchange failed, the synthesized failure reply.
\<close>

theorem ServeDNS_writes_exactly_one:
  "\<exists>new m. wrote (ServeDNS wd h st req) = wrote st @ [m]
      \<and> length (wrote (ServeDNS wd h st req)) = Suc (length (wrote st))
      \<and> asked (ServeDNS wd h st req) = asked st @ new
      \<and> list_all failed (butlast new)
      \<and> (if list_all failed new then m = failureReply req
          else snd (snd (last new)) = Inr m)"
proof -
  from ServeDNS_outcome[of wd h st req] obtain new m where
    o: "asked (ServeDNS wd h st req) = asked st @ new"
       "wrote (ServeDNS wd h st req) = wrote st @ [m]"
       "list_all failed (butlast new)"
       "if list_all failed new then m = failureReply req else snd (snd (last new)) = Inr m"
    by blast
  from o(2) have "length (wrote (ServeDNS wd h st req)) = Suc (length (wrote st))"
    by simp
  with o show ?thesis by blast
qed

theorem ServeDNS_writes_exactly_one_witness:
  "wrote (ServeDNS worldSecond exampleHandler fresh exampleRequest) = [nameError exampleRequest]
   \<and> length (asked (ServeDNS worldSecond exampleHandler fresh exampleRequest)) = 2
   \<and> wrote (ServeDNS worldDown exampleHandler fresh exampleRequest) = [failureReply exampleRequest]
   \<and> length (asked (ServeDNS worldDown exampleHandler fresh exampleRequest)) = 6"
proof -
  have one: "wrote (ServeDNS worldSecond exampleHandler fresh exampleRequest) = [nameError exampleRequest]"
    by code_simp
  have "length (wrote (ServeDNS worldDown exampleHandler fresh exampleRequest)) = 1"
    using ServeDNS_writes_exactly_one[of worldDown exampleHandler fresh exampleRequest]
    by (auto simp: fresh_def)
  moreover have "last (wrote (ServeDNS worldDown exampleHandler fresh exampleRequest)) = failureReply exampleRequest"
    by code_simp
  ultimately have two: "wrote (ServeDNS worldDown exampleHandler fresh exampleRequest) = [failureReply exampleRequest]"
    by (cases "wrote (ServeDNS worldDown exampleHandler fresh exampleRequest)") auto
  have three: "length (asked (ServeDNS worldSecond exampleHandler fresh exampleRequest)) = 2"
    by code_simp
  have four: "length (asked (ServeDNS worldDown exampleHandler fresh exampleRequest)) = 6"
    by code_simp
  from one two three four show ?thesis by simp
qed

text \<open>
  C2. When every exchange of a call has failed, the one message written is the failure
  reply: the request's transaction ID and opcode, the response flag set, recursion
  available cleared, response code server failure.
\<close>

theorem ServeDNS_failure_reply:
  assumes "list_all failed (drop (length (asked st)) (asked (ServeDNS wd h st req)))"
  shows "\<exists>m. wrote (ServeDNS wd h st req) = wrote st @ [m]
           \<and> m = failureReply req
           \<and> Id_msg m = Id_msg req \<and> Opcode m = Opcode req \<and> Response m
           \<and> \<not> RecursionAvailable m \<and> Rcode m = RcodeServerFailure"
proof -
  from ServeDNS_outcome[of wd h st req] obtain new m where
    o: "asked (ServeDNS wd h st req) = asked st @ new"
       "wrote (ServeDNS wd h st req) = wrote st @ [m]"
       "if list_all failed new then m = failureReply req else snd (snd (last new)) = Inr m"
    by blast
  from assms o(1) have "list_all failed new" by simp
  with o(3) have "m = failureReply req" by simp
  with o(2) show ?thesis by (simp add: failureReply_def)
qed

theorem ServeDNS_failure_reply_witness:
  "list_all failed (drop (length (asked fresh)) (asked (ServeDNS worldDown exampleHandler fresh exampleRequest)))
   \<and> (\<exists>m. wrote (ServeDNS worldDown exampleHandler fresh exampleRequest) = wrote fresh @ [m]
         \<and> m = failureReply exampleRequest
         \<and> Id_msg m = 0x1234 \<and> Opcode m = OpcodeQuery \<and> Response m
         \<and> \<not> RecursionAvailable m \<and> Rcode m = 2)"
proof -
  have h: "list_all failed (drop (length (asked fresh)) (asked (ServeDNS worldDown exampleHandler fresh exampleRequest)))"
    by code_simp
  have r: "Id_msg exampleRequest = 0x1234" "Opcode exampleRequest = OpcodeQuery" "RcodeServerFailure = 2"
    by (simp_all add: exampleRequest_def RcodeServerFailure_def)
  from ServeDNS_failure_reply[OF h] r h show ?thesis by simp
qed

section \<open>The order of the exchanges of one resolver group\<close>

lemma answers_append:
  "answers wd req n (xs @ ys) = answers wd req n xs @ answers wd req (n + length xs) ys"
  by (induction xs arbitrary: n) auto

lemma length_answers [simp]: "length (answers wd req n xs) = length xs"
  by (induction xs arbitrary: n) auto

lemma upToFirstSuccess_simps [simp]:
  "upToFirstSuccess [] = []"
  "upToFirstSuccess (a # as) = (if failed a then a # upToFirstSuccess as else [a])"
  by (simp_all add: upToFirstSuccess_def)

lemma relayed_simps [simp]:
  "relayed [] = []"
  "relayed (a # as) = (if failed a then relayed as else [projr (snd (snd a))])"
  by (simp_all add: relayed_def)

lemma upToFirstSuccess_append:
  "upToFirstSuccess (as @ bs) =
     (if list_all failed as then as @ upToFirstSuccess bs else upToFirstSuccess as)"
  by (induction as) auto

lemma relayed_append:
  "relayed (as @ bs) = (if list_all failed as then relayed bs else relayed as)"
  by (induction as) auto

lemma upToFirstSuccess_all_failed: "list_all failed as \<Longrightarrow> upToFirstSuccess as = as"
  by (induction as) auto

lemma relayed_all_failed: "list_all failed as \<Longrightarrow> relayed as = []"
  by (induction as) auto

lemma tryServers_closed:
  "tryServers wd client req port srvs st =
     (let as = answers wd req (length (asked st)) (map (\<lambda>srv. (client, srv @ '':'' @ port)) srvs)
      in (\<not> list_all failed as,
          st\<lparr>asked := asked st @ upToFirstSuccess as, wrote := wrote st @ relayed as\<rparr>))"
proof (induction srvs arbitrary: st)
  case Nil
  show ?case by simp
next
  case (Cons srv srvs)
  show ?case
  proof (cases "Exchange wd (length (asked st)) client req (srv @ '':'' @ port)")
    case (Inl err)
    then show ?thesis
      using Cons.IH[of "st\<lparr>asked := asked st @ [(client, srv @ '':'' @ port, Inl err)]\<rparr>"]
      by (simp add: Let_def failed_def)
  next
    case (Inr reply)
    then show ?thesis
      by (simp add: Let_def failed_def)
  qed
qed

lemma candidates_Cons:
  "candidates (client # cs) cc =
     map (\<lambda>srv. (client, srv @ '':'' @ Port cc)) (Servers cc) @ candidates cs cc"
  by (simp add: candidates_def)

lemma tryClients_closed:
  "tryClients wd req cc cs st =
     (let as = answers wd req (length (asked st)) (candidates cs cc)
      in (\<not> list_all failed as,
          st\<lparr>asked := asked st @ upToFirstSuccess as, wrote := wrote st @ relayed as\<rparr>))"
proof (induction cs arbitrary: st)
  case Nil
  show ?case by (simp add: candidates_def)
next
  case (Cons client cs)
  let ?mine = "map (\<lambda>srv. (client, srv @ '':'' @ Port cc)) (Servers cc)"
  let ?as = "answers wd req (length (asked st)) ?mine"
  let ?st1 = "st\<lparr>asked := asked st @ upToFirstSuccess ?as, wrote := wrote st @ relayed ?as\<rparr>"
  have s: "tryServers wd client req (Port cc) (Servers cc) st = (\<not> list_all failed ?as, ?st1)"
    by (simp add: tryServers_closed Let_def)
  show ?case
  proof (cases "list_all failed ?as")
    case False
    with s show ?thesis
      by (simp add: Let_def candidates_Cons answers_append upToFirstSuccess_append relayed_append)
  next
    case True
    then have st1: "?st1 = st\<lparr>asked := asked st @ ?as\<rparr>"
      by (simp add: upToFirstSuccess_all_failed relayed_all_failed)
    from True s st1 show ?thesis
      using Cons.IH[of "st\<lparr>asked := asked st @ ?as\<rparr>"]
      by (simp add: Let_def candidates_Cons answers_append upToFirstSuccess_append relayed_append)
  qed
qed

lemma tryWithConfig_closed:
  "tryWithConfig wd h st req cc =
     (let as = answers wd req (length (asked st)) (candidates (clients h) cc)
      in (if list_all failed as then Some (Err ''No nameservers found'') else None,
          st\<lparr>asked := asked st @ upToFirstSuccess as, wrote := wrote st @ relayed as\<rparr>))"
  by (simp add: tryWithConfig_def tryClients_closed Let_def)

lemma addResolvers_clients: "addResolvers e rs h = Inr h' \<Longrightarrow> clients h' = clients h"
  by (induction rs arbitrary: h) (auto split: sum.splits if_splits)

lemma newHandler_clients:
  "newHandler e = Inr h \<Longrightarrow> clients h = [\<lparr>Net = []\<rparr>, \<lparr>Net = ''tcp''\<rparr>]"
  by (auto simp: newHandler_def emptyHandler_def split: sum.splits dest!: addResolvers_clients)

text \<open>
  C4. A handler built by \<open>newHandler\<close> asks the candidates of a group in the order UDP
  then TCP and, for each transport, the servers in stored order. The exchanges made are
  the failed candidates up to the first success, and that success; its reply, whatever
  response code it carries, is the one message written, and the result is \<open>nil\<close>. When
  every candidate fails nothing is written and the result is an error.
\<close>

theorem tryWithConfig_udp_then_tcp_first_success:
  assumes "newHandler e = Inr h"
  shows "tryWithConfig wd h st req cc =
     (let as = answers wd req (length (asked st)) (candidates [\<lparr>Net = []\<rparr>, \<lparr>Net = ''tcp''\<rparr>] cc)
      in (if list_all failed as then Some (Err ''No nameservers found'') else None,
          st\<lparr>asked := asked st @ takeWhile failed as @ take 1 (dropWhile failed as),
             wrote := wrote st @ map (\<lambda>a. projr (snd (snd a))) (take 1 (dropWhile failed as))\<rparr>))"
  using newHandler_clients[OF assms]
  by (simp add: tryWithConfig_closed upToFirstSuccess_def relayed_def)

theorem tryWithConfig_udp_then_tcp_first_success_witness:
  "newHandler envFallback = Inr fallbackHandler
   \<and> candidates [\<lparr>Net = []\<rparr>, \<lparr>Net = ''tcp''\<rparr>] fallbackGroup =
       [(\<lparr>Net = []\<rparr>, ''8.8.8.8:53''), (\<lparr>Net = []\<rparr>, ''1.1.1.1:53''),
        (\<lparr>Net = ''tcp''\<rparr>, ''8.8.8.8:53''), (\<lparr>Net = ''tcp''\<rparr>, ''1.1.1.1:53'')]
   \<and> tryWithConfig worldCloudflare fallbackHandler fresh exampleRequest fallbackGroup =
       (None,
        \<lparr>wrote = [nameError exampleRequest],
         asked = [(\<lparr>Net = []\<rparr>, ''8.8.8.8:53'', Inl (Err ''i/o timeout'')),
                  (\<lparr>Net = []\<rparr>, ''1.1.1.1:53'', Inr (nameError exampleRequest))],
         tried = [], routed = []\<rparr>)
   \<and> Rcode (nameError exampleRequest) = RcodeNameError"
proof -
  have h: "newHandler envFallback = Inr fallbackHandler"
    by code_simp
  have c: "candidates [\<lparr>Net = []\<rparr>, \<lparr>Net = ''tcp''\<rparr>] fallbackGroup =
       [(\<lparr>Net = []\<rparr>, ''8.8.8.8:53''), (\<lparr>Net = []\<rparr>, ''1.1.1.1:53''),
        (\<lparr>Net = ''tcp''\<rparr>, ''8.8.8.8:53''), (\<lparr>Net = ''tcp''\<rparr>, ''1.1.1.1:53'')]"
    by (simp add: candidates_def fallbackGroup_def)
  have r: "Rcode (nameError exampleRequest) = RcodeNameError"
    by (simp add: nameError_def)
  from tryWithConfig_udp_then_tcp_first_success[OF h, of worldCloudflare fresh exampleRequest fallbackGroup]
  have "tryWithConfig worldCloudflare fallbackHandler fresh exampleRequest fallbackGroup =
       (None,
        \<lparr>wrote = [nameError exampleRequest],
         asked = [(\<lparr>Net = []\<rparr>, ''8.8.8.8:53'', Inl (Err ''i/o timeout'')),
                  (\<lparr>Net = []\<rparr>, ''1.1.1.1:53'', Inr (nameError exampleRequest))],
         tried = [], routed = []\<rparr>)"
    by (simp add: c fresh_def failed_def worldCloudflare_def)
  with h c r show ?thesis by simp
qed

section \<open>The log of groups and questions\<close>

lemma tryWithConfig_log:
  "tried (snd (tryWithConfig wd h st req cc)) = tried st"
  "routed (snd (tryWithConfig wd h st req cc)) = routed st"
  by (simp_all add: tryWithConfig_closed Let_def)


lemma tryConfigs_tried:
  "\<exists>k. tried (snd (tryConfigs wd h req scope ccs st)) = tried st @ map (Pair scope) (take k ccs)
       \<and> (fst (tryConfigs wd h req scope ccs st) \<or> k = length ccs)"
proof (induction ccs arbitrary: st)
  case Nil
  show ?case by simp
next
  case (Cons cc ccs)
  let ?st0 = "st\<lparr>tried := tried st @ [(scope, cc)]\<rparr>"
  obtain res st1 where r: "tryWithConfig wd h ?st0 req cc = (res, st1)"
    by (cases "tryWithConfig wd h ?st0 req cc")
  with tryWithConfig_log(1)[of wd h ?st0 req cc] have t1: "tried st1 = tried st @ [(scope, cc)]"
    by simp
  show ?case
  proof (cases res)
    case None
    with r t1 show ?thesis
      by (auto intro!: exI[of _ "Suc 0"])
  next
    case (Some err)
    from Cons.IH[of st1] obtain k where
      k: "tried (snd (tryConfigs wd h req scope ccs st1)) = tried st1 @ map (Pair scope) (take k ccs)"
         "fst (tryConfigs wd h req scope ccs st1) \<or> k = length ccs"
      by blast
    with Some r t1 show ?thesis
      by (auto intro!: exI[of _ "Suc k"])
  qed
qed


lemma matching_simps [simp]:
  "matching [] q = {}"
  "matching ((d, ccs) # ents) q =
     (if domainMatches (Name q) d then Pair (Some d) ` set ccs else {}) \<union> matching ents q"
  by (auto simp: matching_def)

lemma matchDomains_tried:
  "\<exists>xs. tried (snd (matchDomains wd h req q ents st)) = tried st @ xs
       \<and> list_all (\<lambda>x. fst x \<noteq> None) xs
       \<and> (fst (matchDomains wd h req q ents st) \<or>
            matching ents q \<subseteq> set xs)"
proof (induction ents arbitrary: st)
  case Nil
  show ?case by simp
next
  case (Cons ent ents)
  obtain domain ccs where ent: "ent = (domain, ccs)"
    by (cases ent)
  show ?case
  proof (cases "domainMatches (Name q) domain")
    case False
    from Cons.IH[of st] obtain xs where
      xs: "tried (snd (matchDomains wd h req q ents st)) = tried st @ xs"
          "list_all (\<lambda>x. fst x \<noteq> None) xs"
          "fst (matchDomains wd h req q ents st) \<or>
            matching ents q \<subseteq> set xs"
      by blast
    show ?thesis
      apply (rule exI[of _ xs])
      using False ent xs by auto
  next
    case m: True
    obtain b st1 where r: "tryConfigs wd h req (Some domain) ccs st = (b, st1)"
      by (cases "tryConfigs wd h req (Some domain) ccs st")
    from tryConfigs_tried[of wd h req "Some domain" ccs st] r obtain k where
      k: "tried st1 = tried st @ map (Pair (Some domain)) (take k ccs)" "b \<or> k = length ccs"
      by auto
    have sc: "list_all (\<lambda>x. fst x \<noteq> None) (map (Pair (Some domain)) (take k ccs))"
      by (simp add: list_all_iff)
    show ?thesis
    proof (cases b)
      case True
      with r ent m k sc show ?thesis
        by auto
    next
      case False
      with k have all: "tried st1 = tried st @ map (Pair (Some domain)) ccs"
        by simp
      from Cons.IH[of st1] obtain xs where
        xs: "tried (snd (matchDomains wd h req q ents st1)) = tried st1 @ xs"
            "list_all (\<lambda>x. fst x \<noteq> None) xs"
            "fst (matchDomains wd h req q ents st1) \<or>
              matching ents q \<subseteq> set xs"
        by blast
      have sc': "list_all (\<lambda>x. fst x \<noteq> None) (map (Pair (Some domain)) ccs @ xs)"
        using xs(2) by (auto simp: list_all_iff)
      show ?thesis
        apply (rule exI[of _ "map (Pair (Some domain)) ccs @ xs"])
        using False r ent m all xs sc' by auto
    qed
  qed
qed


lemma matchDomainConfig_tried:
  assumes "set (rangeMap wd (length (routed st)) (domainClientConfigs h)) = set (domainClientConfigs h)"
  shows "\<exists>xs. tried (snd (matchDomainConfig wd h st req q)) = tried st @ xs
       \<and> list_all (\<lambda>x. fst x \<noteq> None) xs
       \<and> (fst (matchDomainConfig wd h st req q) = None \<or> scopedGroups h q \<subseteq> set xs)"
proof -
  let ?st0 = "st\<lparr>routed := routed st @ [q]\<rparr>"
  let ?ents = "rangeMap wd (length (routed st)) (domainClientConfigs h)"
  obtain b st1 where r: "matchDomains wd h req q ?ents ?st0 = (b, st1)"
    by (cases "matchDomains wd h req q ?ents ?st0")
  from matchDomains_tried[of wd h req q ?ents ?st0] r obtain xs where
    xs: "tried st1 = tried st @ xs" "list_all (\<lambda>x. fst x \<noteq> None) xs"
        "b \<or> matching ?ents q \<subseteq> set xs"
    by auto
  from xs(3) assms have "b \<or> scopedGroups h q \<subseteq> set xs"
    by (simp add: scopedGroups_def matching_def)
  with r xs(1,2) show ?thesis
    by (cases b) (auto simp: matchDomainConfig_def)
qed

lemma matchDomainConfig_scoped_only:
  "\<exists>xs. tried (snd (matchDomainConfig wd h st req q)) = tried st @ xs
       \<and> list_all (\<lambda>x. fst x \<noteq> None) xs"
proof -
  let ?st0 = "st\<lparr>routed := routed st @ [q]\<rparr>"
  let ?ents = "rangeMap wd (length (routed st)) (domainClientConfigs h)"
  obtain b st1 where r: "matchDomains wd h req q ?ents ?st0 = (b, st1)"
    by (cases "matchDomains wd h req q ?ents ?st0")
  from matchDomains_tried[of wd h req q ?ents ?st0] r obtain xs where
    xs: "tried st1 = tried st @ xs" "list_all (\<lambda>x. fst x \<noteq> None) xs"
    by auto
  with r show ?thesis
    by (cases b) (auto simp: matchDomainConfig_def)
qed


lemma matchQuestions_scoped_only:
  "\<exists>xs. tried (snd (matchQuestions wd h req qs st)) = tried st @ xs
       \<and> list_all (\<lambda>x. fst x \<noteq> None) xs"
proof (induction qs arbitrary: st)
  case Nil
  show ?case by simp
next
  case (Cons q qs)
  obtain res st1 where r: "matchDomainConfig wd h st req q = (res, st1)"
    by (cases "matchDomainConfig wd h st req q")
  from matchDomainConfig_scoped_only[of wd h st req q] r obtain xs where
    xs: "tried st1 = tried st @ xs" "list_all (\<lambda>x. fst x \<noteq> None) xs"
    by auto
  show ?case
  proof (cases res)
    case None
    with r xs show ?thesis by auto
  next
    case (Some err)
    from Cons.IH[of st1] obtain ys where
      ys: "tried (snd (matchQuestions wd h req qs st1)) = tried st1 @ ys"
      "list_all (\<lambda>x. fst x \<noteq> None) ys"
      by blast
    have "list_all (\<lambda>x. fst x \<noteq> None) (xs @ ys)"
      using xs(2) ys(2) by simp
    with Some r xs(1) ys(1) show ?thesis
      by (auto intro!: exI[of _ "xs @ ys"])
  qed
qed

lemma matchQuestions_tried:
  assumes visit: "\<forall>n. set (rangeMap wd n (domainClientConfigs h)) = set (domainClientConfigs h)"
  shows "\<exists>xs. tried (snd (matchQuestions wd h req qs st)) = tried st @ xs
       \<and> list_all (\<lambda>x. fst x \<noteq> None) xs
       \<and> (fst (matchQuestions wd h req qs st) \<or> (\<Union>q\<in>set qs. scopedGroups h q) \<subseteq> set xs)"
proof (induction qs arbitrary: st)
  case Nil
  show ?case by simp
next
  case (Cons q qs)
  obtain res st1 where r: "matchDomainConfig wd h st req q = (res, st1)"
    by (cases "matchDomainConfig wd h st req q")
  from visit have "set (rangeMap wd (length (routed st)) (domainClientConfigs h)) = set (domainClientConfigs h)"
    by blast
  from matchDomainConfig_tried[OF this, of req q] r obtain xs where
    xs: "tried st1 = tried st @ xs" "list_all (\<lambda>x. fst x \<noteq> None) xs"
        "res = None \<or> scopedGroups h q \<subseteq> set xs"
    by auto
  show ?case
  proof (cases res)
    case None
    with r xs show ?thesis by auto
  next
    case (Some err)
    from Cons.IH[of st1] obtain ys where
      ys: "tried (snd (matchQuestions wd h req qs st1)) = tried st1 @ ys"
      "list_all (\<lambda>x. fst x \<noteq> None) ys"
      "fst (matchQuestions wd h req qs st1) \<or> (\<Union>q\<in>set qs. scopedGroups h q) \<subseteq> set ys"
      by blast
    have "list_all (\<lambda>x. fst x \<noteq> None) (xs @ ys)"
      using xs(2) ys(2) by simp
    moreover from Some xs(3) have "scopedGroups h q \<subseteq> set xs"
      by simp
    ultimately show ?thesis
      apply -
      apply (rule exI[of _ "xs @ ys"])
      using Some r xs(1) ys(1,3) by auto
  qed
qed

lemma ServeDNS_log:
  "tried (ServeDNS wd h st req) = tried (snd (forwarded wd h st req))"
  "routed (ServeDNS wd h st req) = routed (snd (forwarded wd h st req))"
  by (simp_all add: ServeDNS_forwarded split: prod.splits bool.splits)

text \<open>
  C3, as amended. For a request whose opcode is QUERY or inverse-QUERY, the groups
  attempted are first scoped groups, then groups of the default chain in stored order;
  and when a group of the default chain is attempted at all, every group stored under a
  domain that matches the name of a question of the request has been attempted before.
  (The range loop is taken to visit every entry of the table.)
\<close>

theorem ServeDNS_scoped_before_default:
  assumes op: "Opcode req = OpcodeQuery \<or> Opcode req = OpcodeIQuery"
    and visit: "\<forall>n. set (rangeMap wd n (domainClientConfigs h)) = set (domainClientConfigs h)"
  shows "\<exists>scoped k.
      tried (ServeDNS wd h st req) =
        tried st @ scoped @ map (Pair None) (take k (defaultClientConfigs h))
      \<and> list_all (\<lambda>x. fst x \<noteq> None) scoped
      \<and> (take k (defaultClientConfigs h) = []
          \<or> (\<Union>q\<in>set (Question req). scopedGroups h q) \<subseteq> set scoped)"
proof -
  obtain b st1 where r: "matchQuestions wd h req (Question req) st = (b, st1)"
    by (cases "matchQuestions wd h req (Question req) st")
  from matchQuestions_tried[OF visit, of req "Question req" st] r obtain xs where
    xs: "tried st1 = tried st @ xs" "list_all (\<lambda>x. fst x \<noteq> None) xs"
        "b \<or> (\<Union>q\<in>set (Question req). scopedGroups h q) \<subseteq> set xs"
    by auto
  show ?thesis
  proof (cases b)
    case True
    with op r have "snd (forwarded wd h st req) = st1"
      by (auto simp: forwarded_def domainPhase_def)
    with xs(1,2) show ?thesis
      by (auto simp: ServeDNS_log intro!: exI[of _ xs] exI[of _ 0])
  next
    case False
    with op r have f: "forwarded wd h st req = tryConfigs wd h req None (defaultClientConfigs h) st1"
      by (auto simp: forwarded_def domainPhase_def)
    from tryConfigs_tried[of wd h req None "defaultClientConfigs h" st1] obtain k where
      k: "tried (snd (tryConfigs wd h req None (defaultClientConfigs h) st1)) =
            tried st1 @ map (Pair None) (take k (defaultClientConfigs h))"
      by blast
    from False xs(3) have "(\<Union>q\<in>set (Question req). scopedGroups h q) \<subseteq> set xs"
      by simp
    with f k xs(1,2) show ?thesis
      by (auto simp: ServeDNS_log intro!: exI[of _ xs] exI[of _ k])
  qed
qed

theorem ServeDNS_scoped_before_default_witness:
  "(Opcode exampleRequest = OpcodeQuery \<or> Opcode exampleRequest = OpcodeIQuery)
   \<and> (\<forall>n. set (rangeMap worldDown n (domainClientConfigs exampleHandler)) =
            set (domainClientConfigs exampleHandler))
   \<and> tried (ServeDNS worldDown exampleHandler fresh exampleRequest) =
       [(Some ''internal.corp'', internalGroup), (None, publicGroup)]
   \<and> (\<exists>scoped k.
        tried (ServeDNS worldDown exampleHandler fresh exampleRequest) =
          tried fresh @ scoped @ map (Pair None) (take k (defaultClientConfigs exampleHandler))
        \<and> list_all (\<lambda>x. fst x \<noteq> None) scoped
        \<and> (take k (defaultClientConfigs exampleHandler) = []
            \<or> (\<Union>q\<in>set (Question exampleRequest). scopedGroups exampleHandler q) \<subseteq> set scoped))"
proof -
  have op: "Opcode exampleRequest = OpcodeQuery \<or> Opcode exampleRequest = OpcodeIQuery"
    by (simp add: exampleRequest_def)
  have visit: "\<forall>n. set (rangeMap worldDown n (domainClientConfigs exampleHandler)) =
            set (domainClientConfigs exampleHandler)"
    by (simp add: worldDown_def)
  have t: "tried (ServeDNS worldDown exampleHandler fresh exampleRequest) =
       [(Some ''internal.corp'', internalGroup), (None, publicGroup)]"
    by code_simp
  from ServeDNS_scoped_before_default[OF op visit, of fresh] op visit t show ?thesis
    by blast
qed

text \<open>
  C3, as stated, at a request with opcode STATUS: the name of its question matches the
  scope \<open>internal.corp\<close>, the group of the default chain is attempted, and the group
  stored under \<open>internal.corp\<close> is never attempted.
\<close>

theorem ServeDNS_status_request_skips_scoped_groups:
  "Opcode statusRequest = OpcodeStatus
   \<and> Question statusRequest = [\<lparr>Name = ''db.internal.corp.'', Qtype = 1, Qclass = 1\<rparr>]
   \<and> domainClientConfigs exampleHandler = [(''internal.corp'', [internalGroup])]
   \<and> domainMatches ''db.internal.corp.'' ''internal.corp''
   \<and> tried (ServeDNS worldDown exampleHandler fresh statusRequest) = [(None, publicGroup)]"
proof -
  have a: "Opcode statusRequest = OpcodeStatus"
    "Question statusRequest = [\<lparr>Name = ''db.internal.corp.'', Qtype = 1, Qclass = 1\<rparr>]"
    by (simp_all add: statusRequest_def exampleRequest_def)
  have b: "domainClientConfigs exampleHandler = [(''internal.corp'', [internalGroup])]"
    by (simp add: exampleHandler_def)
  have c: "domainMatches ''db.internal.corp.'' ''internal.corp''"
    by code_simp
  have d: "tried (ServeDNS worldDown exampleHandler fresh statusRequest) = [(None, publicGroup)]"
    by code_simp
  from a b c d show ?thesis by simp
qed



section \<open>Configuration discovery\<close>

lemma set_sink: "set (sink lessf x left) = insert x (set left)"
  by (induction left) auto





text \<open>
  C6. Without split-DNS facility and without a readable resolver file, and with the
  package's parser reading the static text as modelled, \<open>newHandler\<close> succeeds: the domain
  table is empty and the default chain is one group with the servers 8.8.8.8 and 1.1.1.1.
\<close>

theorem newHandler_public_fallback:
  assumes "ReadMacOSDNS e = Inl err1"
    and "ClientConfigFromFile e ''/etc/resolv.conf'' = Inl err2"
    and "ClientConfigFromReader e = nameserverLines"
  shows "newHandler e =
     Inr \<lparr>domainClientConfigs = [],
          defaultClientConfigs =
            [\<lparr>Servers = [''8.8.8.8'', ''1.1.1.1''], Search = [], Port = ''53'', Ndots = 1,
              Timeout = 5, Attempts = 2\<rparr>],
          clients = [\<lparr>Net = []\<rparr>, \<lparr>Net = ''tcp''\<rparr>]\<rparr>"
proof -
  have "newStaticClientConfig e [''8.8.8.8'', ''1.1.1.1''] =
     Inr \<lparr>Servers = [''8.8.8.8'', ''1.1.1.1''], Search = [], Port = ''53'', Ndots = 1,
           Timeout = 5, Attempts = 2\<rparr>"
    unfolding newStaticClientConfig_def assms(3) by code_simp
  with assms(1,2) show ?thesis
    by (simp add: newHandler_def emptyHandler_def)
qed

theorem newHandler_public_fallback_witness:
  "ReadMacOSDNS envFallback = Inl (Err ''scutil: not available'')
   \<and> ClientConfigFromFile envFallback ''/etc/resolv.conf'' = Inl (Err ''open /etc/resolv.conf: no such file'')
   \<and> ClientConfigFromReader envFallback = nameserverLines
   \<and> newHandler envFallback = Inr fallbackHandler
   \<and> defaultClientConfigs fallbackHandler = [fallbackGroup]
   \<and> Servers fallbackGroup = [''8.8.8.8'', ''1.1.1.1'']
   \<and> domainClientConfigs fallbackHandler = []"
proof -
  have a: "ReadMacOSDNS envFallback = Inl (Err ''scutil: not available'')"
    "ClientConfigFromFile envFallback ''/etc/resolv.conf'' = Inl (Err ''open /etc/resolv.conf: no such file'')"
    "ClientConfigFromReader envFallback = nameserverLines"
    by (simp_all add: envFallback_def)
  from newHandler_public_fallback[OF a] a show ?thesis
    by (simp add: fallbackHandler_def fallbackGroup_def)
qed

section \<open>Starting and stopping\<close>





text \<open>
  C7. \<open>Shutdown\<close> has no error result and completes on every handle. It leaves a
  transport that was never started absent, stops a listener that is serving, and changes
  nothing else, also when the listener is no longer serving and the package's call
  reports an error; so a second call changes nothing. A handle returned by \<open>StartDNS\<close>
  has a listener exactly for the transports whose port is greater than zero.
\<close>

theorem Shutdown_idempotent:
  "Shutdown (Shutdown s) = Shutdown s
   \<and> udp (Shutdown s) = map_option (\<lambda>u. u\<lparr>started := False\<rparr>) (udp s)
   \<and> tcp (Shutdown s) = map_option (\<lambda>t. t\<lparr>started := False\<rparr>) (tcp s)
   \<and> (StartDNS e a = Returned (Some s, None) \<longrightarrow>
        (udp s = None \<longleftrightarrow> udpDNSLocalPort a \<le> 0) \<and> (tcp s = None \<longleftrightarrow> tcpDNSLocalPort a \<le> 0))"
proof -
  have u: "udp (Shutdown s) = map_option (\<lambda>u. u\<lparr>started := False\<rparr>) (udp s)" for s
    by (cases "udp s"; cases "tcp s") (auto simp: Shutdown_def dns_Server_Shutdown_def)
  have t: "tcp (Shutdown s) = map_option (\<lambda>t. t\<lparr>started := False\<rparr>) (tcp s)" for s
    by (cases "udp s"; cases "tcp s") (auto simp: Shutdown_def dns_Server_Shutdown_def)
  have "udp (Shutdown (Shutdown s)) = udp (Shutdown s)" "tcp (Shutdown (Shutdown s)) = tcp (Shutdown s)"
    by (simp_all add: u t option.map_comp comp_def)
  then have i: "Shutdown (Shutdown s) = Shutdown s"
    by simp
  have p: "StartDNS e a = Returned (Some s, None) \<longrightarrow>
        (udp s = None \<longleftrightarrow> udpDNSLocalPort a \<le> 0) \<and> (tcp s = None \<longleftrightarrow> tcpDNSLocalPort a \<le> 0)"
    by (auto simp: StartDNS_def split: sum.splits if_splits)
  from i u t p show ?thesis by blast
qed

theorem Shutdown_idempotent_witness:
  "StartDNS envFallback udpOnly =
     Returned (Some \<lparr>udp = Some (listener ''udp'' 5353 fallbackHandler), tcp = None\<rparr>, None)
   \<and> Shutdown \<lparr>udp = Some (listener ''udp'' 5353 fallbackHandler), tcp = None\<rparr> =
       \<lparr>udp = Some ((listener ''udp'' 5353 fallbackHandler)\<lparr>started := False\<rparr>), tcp = None\<rparr>
   \<and> Shutdown (Shutdown \<lparr>udp = Some (listener ''udp'' 5353 fallbackHandler), tcp = None\<rparr>) =
       \<lparr>udp = Some ((listener ''udp'' 5353 fallbackHandler)\<lparr>started := False\<rparr>), tcp = None\<rparr>
   \<and> fst (dns_Server_Shutdown ((listener ''udp'' 5353 fallbackHandler)\<lparr>started := False\<rparr>)) =
       Some (Err ''dns: server not started'')
   \<and> Shutdown \<lparr>udp = None, tcp = None\<rparr> = \<lparr>udp = None, tcp = None\<rparr>
   \<and> udpDNSLocalPort udpOnly = 5353 \<and> tcpDNSLocalPort udpOnly = 0"
proof -
  let ?s = "\<lparr>udp = Some (listener ''udp'' 5353 fallbackHandler), tcp = None\<rparr>"
  have h: "newHandler envFallback = Inr fallbackHandler"
    by code_simp
  then have s: "StartDNS envFallback udpOnly = Returned (Some ?s, None)"
    by (simp add: StartDNS_def udpOnly_def)
  have one: "Shutdown ?s = \<lparr>udp = Some ((listener ''udp'' 5353 fallbackHandler)\<lparr>started := False\<rparr>), tcp = None\<rparr>"
    by (simp add: Shutdown_def dns_Server_Shutdown_def listener_def)
  from Shutdown_idempotent[of ?s envFallback udpOnly] one
  have two: "Shutdown (Shutdown ?s) =
       \<lparr>udp = Some ((listener ''udp'' 5353 fallbackHandler)\<lparr>started := False\<rparr>), tcp = None\<rparr>"
    by simp
  have e: "fst (dns_Server_Shutdown ((listener ''udp'' 5353 fallbackHandler)\<lparr>started := False\<rparr>)) =
       Some (Err ''dns: server not started'')"
    by (simp add: dns_Server_Shutdown_def)
  have n: "Shutdown \<lparr>udp = None, tcp = None\<rparr> = \<lparr>udp = None, tcp = None\<rparr>"
    by (simp add: Shutdown_def)
  from s one two e n show ?thesis
    by (simp add: udpOnly_def)
qed

section \<open>The order of the split-DNS entries\<close>

lemma before_lessResolver: "lessResolver x y \<Longrightarrow> before x y"
  unfolding lessResolver_def before_def by (cases "Domain_r x = []"; cases "Domain_r y = []") auto

lemma before_not_lessResolver: "\<not> lessResolver x y \<Longrightarrow> before y x"
  unfolding lessResolver_def before_def by (cases "Domain_r x = []"; cases "Domain_r y = []") auto

lemma before_step:
  assumes "before z y" and "\<not> lessResolver x y"
  shows "before z x"
  using assms unfolding lessResolver_def before_def
  by (cases "Domain_r x = []"; cases "Domain_r y = []"; cases "Domain_r z = []") auto

lemma sink_before:
  "sorted_wrt (\<lambda>b a. before a b) left \<Longrightarrow> sorted_wrt (\<lambda>b a. before a b) (sink lessResolver x left)"
proof (induction left)
  case Nil
  show ?case by simp
next
  case (Cons y left)
  from Cons.prems have tl: "sorted_wrt (\<lambda>b a. before a b) left"
    and hd: "\<forall>z\<in>set left. before z y"
    by simp_all
  show ?case
  proof (cases "lessResolver x y")
    case True
    have "\<forall>z\<in>set (sink lessResolver x left). before z y"
      using hd before_lessResolver[OF True] by (simp add: set_sink)
    with True Cons.IH[OF tl] show ?thesis
      by simp
  next
    case False
    have "\<forall>z\<in>set (y # left). before z x"
      using hd before_step[OF _ False] before_not_lessResolver[OF False] by simp
    with False Cons.prems show ?thesis
      by simp
  qed
qed

lemma foldl_sink_before:
  "sorted_wrt (\<lambda>b a. before a b) acc \<Longrightarrow>
   sorted_wrt (\<lambda>b a. before a b) (foldl (\<lambda>left x. sink lessResolver x left) acc xs)"
  by (induction xs arbitrary: acc) (simp_all add: sink_before)

lemma mset_sink: "mset (sink lessf x left) = add_mset x (mset left)"
  by (induction left) auto

lemma mset_foldl_sink: "mset (foldl (\<lambda>left x. sink lessf x left) acc xs) = mset acc + mset xs"
  by (induction xs arbitrary: acc) (auto simp: mset_sink)

lemma mset_Slice: "mset (Slice lessf xs) = mset xs"
  by (simp add: Slice_def mset_foldl_sink)

lemma Slice_lessResolver_before: "sorted_wrt before (Slice lessResolver rs)"
  using foldl_sink_before[of "[]" rs] by (simp add: Slice_def sorted_wrt_rev)

lemma sorted_wrt_class:
  assumes "sorted_wrt before rs"
  shows "sorted (map Order (filter (\<lambda>r. Domain_r r \<noteq> []) rs))"
    and "sorted (map Order (filter (\<lambda>r. Domain_r r = []) rs))"
  using assms
proof (induction rs)
  case Nil
  { case 1 show ?case by simp }
  { case 2 show ?case by simp }
next
  case (Cons r rs)
  { case 1
    from 1 have "sorted_wrt before rs" and b: "\<forall>z\<in>set rs. before r z"
      by simp_all
    with Cons.IH(1) have "sorted (map Order (filter (\<lambda>r. Domain_r r \<noteq> []) rs))"
      by simp
    moreover have "Order r \<le> Order z" if "z \<in> set rs" "Domain_r r \<noteq> []" "Domain_r z \<noteq> []" for z
      using b that by (simp add: before_def)
    ultimately show ?case
      by auto }
  { case 2
    from 2 have "sorted_wrt before rs" and b: "\<forall>z\<in>set rs. before r z"
      by simp_all
    with Cons.IH(2) have "sorted (map Order (filter (\<lambda>r. Domain_r r = []) rs))"
      by simp
    moreover have "Order r \<le> Order z" if "z \<in> set rs" "Domain_r r = []" "Domain_r z = []" for z
      using b that by (simp add: before_def)
    ultimately show ?case
      by auto }
qed

text \<open>
  What the modelled insertion sort does guarantee with this comparison: the result is a
  rearrangement of the entries in which the hints ascend inside each class. The classes
  themselves may be interleaved.
\<close>

lemma Slice_lessResolver_classes_ascending:
  "mset (Slice lessResolver rs) = mset rs
   \<and> sorted (map Order (filter (\<lambda>r. Domain_r r \<noteq> []) (Slice lessResolver rs)))
   \<and> sorted (map Order (filter (\<lambda>r. Domain_r r = []) (Slice lessResolver rs)))"
  using sorted_wrt_class[OF Slice_lessResolver_before[of rs]] by (simp add: mset_Slice)


end
